theory Spec2Isabelle
  imports Main "HOL-Library.Word"
begin

section \<open>Bytes, byte order and errors\<close>

text \<open>
  The program (\<^verbatim>\<open>main.py\<close>) works on Python \<^verbatim>\<open>bytes\<close> objects: immutable sequences
  of octets. The functions it calls from the \<^verbatim>\<open>struct\<close> module use the native byte
  order of the host, which the program never fixes; it is a parameter here.
\<close>

type_synonym byte = "8 word"
type_synonym bytes = "byte list"

datatype byteorder = Little | Big

text \<open>
  Every exception the decoding functions can meet. Both messages of \<^verbatim>\<open>struct.error\<close>
  belong to the one Python class; \<open>IndexError\<close> is what reading a byte outside a buffer
  raises.
\<close>

datatype struct_reason =
    RequiresBuffer  \<comment> \<open>"unpack_from requires a buffer of at least n bytes ..."\<close>
  | NotMultiple     \<comment> \<open>"iterative unpacking requires a buffer of a multiple of n bytes"\<close>

datatype error = StructError struct_reason | IndexError

section \<open>The library operations the program calls\<close>

text \<open>\<^verbatim>\<open>buf[i]\<close> for a non-negative index: raises outside the buffer.\<close>

definition getitem :: "bytes \<Rightarrow> nat \<Rightarrow> error + byte" where
  "getitem buf i = (if i < length buf then Inr (buf ! i) else Inl IndexError)"

text \<open>Reading \<open>n\<close> consecutive bytes from offset \<open>off\<close>, one checked read each.\<close>

fun read_bytes :: "bytes \<Rightarrow> nat \<Rightarrow> nat \<Rightarrow> error + bytes" where
  "read_bytes buf off 0 = Inr []"
| "read_bytes buf off (Suc n) =
     (case getitem buf off of
        Inl e \<Rightarrow> Inl e
      | Inr b \<Rightarrow> (case read_bytes buf (Suc off) n of
                    Inl e \<Rightarrow> Inl e
                  | Inr bs \<Rightarrow> Inr (b # bs)))"

text \<open>\<^verbatim>\<open>buf[lo:hi]\<close> for non-negative bounds: both ends are clamped to the buffer.\<close>

definition slice_bytes :: "bytes \<Rightarrow> nat \<Rightarrow> nat \<Rightarrow> bytes" where
  "slice_bytes buf lo hi = drop lo (take hi buf)"

text \<open>The unsigned value of a byte string, least significant byte first.\<close>

fun le_value :: "bytes \<Rightarrow> int" where
  "le_value [] = 0"
| "le_value (b # bs) = uint b + 256 * le_value bs"

definition unsigned_value :: "byteorder \<Rightarrow> bytes \<Rightarrow> int" where
  "unsigned_value bo bs = (case bo of Little \<Rightarrow> le_value bs | Big \<Rightarrow> le_value (rev bs))"

text \<open>Format \<^verbatim>\<open>'i'\<close>: four bytes as a C \<^verbatim>\<open>int\<close>; format \<^verbatim>\<open>'h'\<close>: two bytes as a C \<^verbatim>\<open>short\<close>.\<close>

definition unpack_i :: "byteorder \<Rightarrow> bytes \<Rightarrow> int" where
  "unpack_i bo bs = sint (word_of_int (unsigned_value bo bs) :: 32 word)"

definition unpack_h :: "byteorder \<Rightarrow> bytes \<Rightarrow> int" where
  "unpack_h bo bs = sint (word_of_int (unsigned_value bo bs) :: 16 word)"

text \<open>
  \<^verbatim>\<open>struct.unpack_from('i', buf, off)\<close> with \<open>off \<ge> 0\<close>: the length is checked first
  (\<^verbatim>\<open>len(buf) - off < 4\<close> raises), then the four bytes are read.
\<close>

definition unpack_from_i :: "byteorder \<Rightarrow> bytes \<Rightarrow> nat \<Rightarrow> error + int" where
  "unpack_from_i bo buf off =
     (if int (length buf) - int off < 4 then Inl (StructError RequiresBuffer)
      else (case read_bytes buf off 4 of
              Inl e \<Rightarrow> Inl e
            | Inr bs \<Rightarrow> Inr (unpack_i bo bs)))"

text \<open>
  \<^verbatim>\<open>struct.iter_unpack('h', buf)\<close>, consumed to the end: the length must be a multiple
  of the item size; then items are read at index 0, 2, 4, ... while the index is inside
  the buffer.
\<close>

function unpack_loop :: "byteorder \<Rightarrow> bytes \<Rightarrow> nat \<Rightarrow> error + int list" where
  "unpack_loop bo buf idx =
     (if length buf \<le> idx then Inr []
      else (case read_bytes buf idx 2 of
              Inl e \<Rightarrow> Inl e
            | Inr bs \<Rightarrow> (case unpack_loop bo buf (idx + 2) of
                          Inl e \<Rightarrow> Inl e
                        | Inr vs \<Rightarrow> Inr (unpack_h bo bs # vs))))"
  by pat_completeness auto
termination
  by (relation "measure (\<lambda>(bo, buf, idx). length buf - idx)") auto

declare unpack_loop.simps [simp del]

definition iter_unpack_h :: "byteorder \<Rightarrow> bytes \<Rightarrow> error + int list" where
  "iter_unpack_h bo buf =
     (if length buf mod 2 \<noteq> 0 then Inl (StructError NotMultiple)
      else unpack_loop bo buf 0)"

section \<open>The program's functions\<close>

definition get_timestamp :: "byteorder \<Rightarrow> bytes \<Rightarrow> error + int" where
  "get_timestamp bo byte_array = unpack_from_i bo byte_array 6"

definition get_timestamp_byte :: "bytes \<Rightarrow> bytes" where
  "get_timestamp_byte byte_array = slice_bytes byte_array 6 7"

definition get_data_array :: "bytes \<Rightarrow> bytes" where
  "get_data_array byte_array = slice_bytes byte_array 10 24"

text \<open>
  \<^verbatim>\<open>[datum[0] for datum in struct.iter_unpack('h', byte_array)]\<close>: each item of the
  iterator is a 1-tuple, whose only component is kept.
\<close>

definition get_data :: "byteorder \<Rightarrow> bytes \<Rightarrow> error + int list" where
  "get_data bo byte_array = iter_unpack_h bo byte_array"

text \<open>
  The source has no single function for full decoding: \<open>get_timestamp\<close>,
  \<open>get_data_array\<close> and \<open>get_data\<close> are separate calls. \<open>decode\<close> chains them in
  that order, timestamp first; an exception of either call ends it.
\<close>

record frame =
  timestamp :: int
  samples :: "int list"

definition decode :: "byteorder \<Rightarrow> bytes \<Rightarrow> error + frame" where
  "decode bo byte_array =
     (case get_timestamp bo byte_array of
        Inl e \<Rightarrow> Inl e
      | Inr ts \<Rightarrow> (case get_data bo (get_data_array byte_array) of
                     Inl e \<Rightarrow> Inl e
                   | Inr xs \<Rightarrow> Inr \<lparr>timestamp = ts, samples = xs\<rparr>))"

subsection \<open>Splitting a capture at the delimiter\<close>

text \<open>
  \<^verbatim>\<open>bytes.split(b'\\x3a')\<close> (line 87), for a separator of one byte \<open>d\<close> and no limit
  on the number of splits: scan the buffer; at each occurrence of \<open>d\<close> close the current
  piece and start a new one; at the end of the buffer close the last piece, always.
  \<open>cur\<close> holds the bytes since the last occurrence.
\<close>

fun split_from :: "byte \<Rightarrow> bytes \<Rightarrow> bytes \<Rightarrow> bytes list" where
  "split_from d cur [] = [cur]"
| "split_from d cur (x # xs) =
     (if x = d then cur # split_from d [] xs else split_from d (cur @ [x]) xs)"

definition bytes_split :: "bytes \<Rightarrow> byte \<Rightarrow> bytes list" where
  "bytes_split buf d = split_from d [] buf"

definition delimiter :: byte where
  "delimiter = 0x3A"

subsection \<open>Saving a capture\<close>

text \<open>
  \<open>bytes_to_file\<close> talks to the operating system twice: \<^verbatim>\<open>os.remove(path)\<close> inside
  \<^verbatim>\<open>try: ... except: pass\<close>, then \<^verbatim>\<open>open(path, 'wb')\<close> with \<^verbatim>\<open>write\<close>. The two system
  operations are parameters: each takes the file system and returns an error or the
  file system after it. A failed operation leaves the file system as it was.
\<close>

type_synonym path = string

datatype os_error = FileNotFoundError | PermissionError | IsADirectoryError

definition bytes_to_file ::
  "(path \<Rightarrow> 'fs \<Rightarrow> os_error + 'fs) \<Rightarrow> (path \<Rightarrow> bytes \<Rightarrow> 'fs \<Rightarrow> os_error + 'fs) \<Rightarrow>
   path \<Rightarrow> bytes \<Rightarrow> 'fs \<Rightarrow> os_error + 'fs" where
  "bytes_to_file remove open_write path byte_array fs =
     (let fs1 = (case remove path fs of Inl e \<Rightarrow> fs | Inr fs' \<Rightarrow> fs')
      in open_write path byte_array fs1)"

text \<open>
  A small file system to run \<open>bytes_to_file\<close> on: one directory, its files by name, and
  whether the directory may be modified. As in POSIX, removing or creating a file needs
  write permission on the directory, overwriting an existing file does not.
\<close>

record filesystem =
  entries :: "(path \<times> bytes) list"
  dir_writable :: bool

definition unlink :: "path \<Rightarrow> filesystem \<Rightarrow> os_error + filesystem" where
  "unlink p fs =
     (if map_of (entries fs) p = None then Inl FileNotFoundError
      else if \<not> dir_writable fs then Inl PermissionError
      else Inr (fs\<lparr>entries := filter (\<lambda>e. fst e \<noteq> p) (entries fs)\<rparr>))"

definition write_file :: "path \<Rightarrow> bytes \<Rightarrow> filesystem \<Rightarrow> os_error + filesystem" where
  "write_file p data fs =
     (if map_of (entries fs) p \<noteq> None
        then Inr (fs\<lparr>entries := (p, data) # filter (\<lambda>e. fst e \<noteq> p) (entries fs)\<rparr>)
      else if \<not> dir_writable fs then Inl PermissionError
      else Inr (fs\<lparr>entries := (p, data) # entries fs\<rparr>))"

subsection \<open>The same functions on a store of objects\<close>

text \<open>
  Calling the functions has effects on the objects of the interpreter:
  \<^verbatim>\<open>byte_array[10:24]\<close> makes a new \<^verbatim>\<open>bytes\<close> object, \<^verbatim>\<open>struct.iter_unpack\<close> makes an
  iterator that keeps the buffer it reads and the index of its next item, and the list
  comprehension of \<open>get_data\<close> advances that iterator until it is exhausted. Here the
  functions take and return references into a store; an object that is not of the
  expected kind raises \<open>TypeError\<close>.
\<close>

type_synonym ref = nat

datatype pyobj =
    Bytes bytes
  | UnpackIter ref nat  \<comment> \<open>the buffer read, the index of the next item\<close>

type_synonym store = "pyobj list"

datatype exn = Err error | TypeError

definition lookup :: "store \<Rightarrow> ref \<Rightarrow> pyobj option" where
  "lookup s r = (if r < length s then Some (s ! r) else None)"

definition alloc :: "store \<Rightarrow> pyobj \<Rightarrow> ref \<times> store" where
  "alloc s obj = (length s, s @ [obj])"

definition raised :: "error + 'a \<Rightarrow> exn + 'a" where
  "raised res = (case res of Inl e \<Rightarrow> Inl (Err e) | Inr v \<Rightarrow> Inr v)"

definition get_timestamp_st :: "byteorder \<Rightarrow> ref \<Rightarrow> store \<Rightarrow> (exn + int) \<times> store" where
  "get_timestamp_st bo r s =
     (case lookup s r of
        Some (Bytes b) \<Rightarrow> (raised (unpack_from_i bo b 6), s)
      | _ \<Rightarrow> (Inl TypeError, s))"

definition get_data_array_st :: "ref \<Rightarrow> store \<Rightarrow> (exn + ref) \<times> store" where
  "get_data_array_st r s =
     (case lookup s r of
        Some (Bytes b) \<Rightarrow> (case alloc s (Bytes (slice_bytes b 10 24)) of (a, s') \<Rightarrow> (Inr a, s'))
      | _ \<Rightarrow> (Inl TypeError, s))"

text \<open>\<^verbatim>\<open>struct.iter_unpack('h', buf)\<close>: the length is checked when the iterator is made.\<close>

definition iter_unpack_st :: "ref \<Rightarrow> store \<Rightarrow> (exn + ref) \<times> store" where
  "iter_unpack_st r s =
     (case lookup s r of
        Some (Bytes b) \<Rightarrow>
          if length b mod 2 \<noteq> 0 then (Inl (Err (StructError NotMultiple)), s)
          else (case alloc s (UnpackIter r 0) of (it, s') \<Rightarrow> (Inr it, s'))
      | _ \<Rightarrow> (Inl TypeError, s))"

text \<open>
  \<^verbatim>\<open>next(it)\<close>: \<open>None\<close> stands for \<^verbatim>\<open>StopIteration\<close>; otherwise the item at the index is
  unpacked and the index of the iterator moves on by the size of an item.
\<close>

definition next_st :: "byteorder \<Rightarrow> ref \<Rightarrow> store \<Rightarrow> (exn + int option) \<times> store" where
  "next_st bo it s =
     (case lookup s it of
        Some (UnpackIter r idx) \<Rightarrow>
          (case lookup s r of
             Some (Bytes b) \<Rightarrow>
               if length b \<le> idx then (Inr None, s)
               else (case read_bytes b idx 2 of
                       Inl e \<Rightarrow> (Inl (Err e), s)
                     | Inr bs \<Rightarrow> (Inr (Some (unpack_h bo bs)), s[it := UnpackIter r (idx + 2)]))
           | _ \<Rightarrow> (Inl TypeError, s))
      | _ \<Rightarrow> (Inl TypeError, s))"

text \<open>What is left for an iterator to read: it shrinks with every item.\<close>

definition remaining :: "store \<Rightarrow> ref \<Rightarrow> nat" where
  "remaining s it =
     (case lookup s it of
        Some (UnpackIter r idx) \<Rightarrow>
          (case lookup s r of Some (Bytes b) \<Rightarrow> length b - idx | _ \<Rightarrow> 0)
      | _ \<Rightarrow> 0)"

text \<open>\<^verbatim>\<open>[datum[0] for datum in data_iter]\<close>: items are taken until the iterator stops.\<close>

function drain_st :: "byteorder \<Rightarrow> ref \<Rightarrow> store \<Rightarrow> (exn + int list) \<times> store" where
  "drain_st bo it s =
     (case next_st bo it s of
        (Inl e, s') \<Rightarrow> (Inl e, s')
      | (Inr None, s') \<Rightarrow> (Inr [], s')
      | (Inr (Some v), s') \<Rightarrow>
          (case drain_st bo it s' of
             (Inl e, s'') \<Rightarrow> (Inl e, s'')
           | (Inr vs, s'') \<Rightarrow> (Inr (v # vs), s'')))"
  by pat_completeness auto
termination
  by (relation "measure (\<lambda>(bo, it, s). remaining s it)")
    (auto simp add: next_st_def remaining_def lookup_def nth_list_update
      split: option.splits pyobj.splits if_splits sum.splits)

declare drain_st.simps [simp del]

definition get_data_st :: "byteorder \<Rightarrow> ref \<Rightarrow> store \<Rightarrow> (exn + int list) \<times> store" where
  "get_data_st bo r s =
     (case iter_unpack_st r s of
        (Inl e, s') \<Rightarrow> (Inl e, s')
      | (Inr data_iter, s') \<Rightarrow> drain_st bo data_iter s')"

definition decode_st :: "byteorder \<Rightarrow> ref \<Rightarrow> store \<Rightarrow> (exn + frame) \<times> store" where
  "decode_st bo r s =
     (case get_timestamp_st bo r s of
        (Inl e, s1) \<Rightarrow> (Inl e, s1)
      | (Inr ts, s1) \<Rightarrow>
          (case get_data_array_st r s1 of
             (Inl e, s2) \<Rightarrow> (Inl e, s2)
           | (Inr data_array, s2) \<Rightarrow>
               (case get_data_st bo data_array s2 of
                  (Inl e, s3) \<Rightarrow> (Inl e, s3)
                | (Inr xs, s3) \<Rightarrow> (Inr \<lparr>timestamp = ts, samples = xs\<rparr>, s3))))"

section \<open>What the specification says, in its own words\<close>

text \<open>A value of \<open>n\<close> bits read as two's complement.\<close>

definition signed_value :: "nat \<Rightarrow> int \<Rightarrow> int" where
  "signed_value n u = (if u < 2 ^ (n - 1) then u else u - 2 ^ n)"

text \<open>A 2-byte group as a signed 16-bit integer, a 4-byte group as a signed 32-bit one.\<close>

definition int16_of_pair :: "byteorder \<Rightarrow> byte \<Rightarrow> byte \<Rightarrow> int" where
  "int16_of_pair bo a b =
     signed_value 16
       (case bo of Little \<Rightarrow> uint a + 256 * uint b | Big \<Rightarrow> 256 * uint a + uint b)"

definition int32_of_quad :: "byteorder \<Rightarrow> byte \<Rightarrow> byte \<Rightarrow> byte \<Rightarrow> byte \<Rightarrow> int" where
  "int32_of_quad bo a b c d =
     signed_value 32
       (case bo of
          Little \<Rightarrow> uint a + 256 * uint b + 65536 * uint c + 16777216 * uint d
        | Big \<Rightarrow> 16777216 * uint a + 65536 * uint b + 256 * uint c + uint d)"

text \<open>
  "Interprets every consecutive 2-byte group, starting at the payload start, as a signed
  16-bit integer; an odd trailing byte is discarded without error."
\<close>

fun samples_of_pairs :: "byteorder \<Rightarrow> bytes \<Rightarrow> int list" where
  "samples_of_pairs bo (a # b # rest) = int16_of_pair bo a b # samples_of_pairs bo rest"
| "samples_of_pairs bo [b] = []"
| "samples_of_pairs bo [] = []"

text \<open>"Re-inserting \<open>d\<close> between consecutive results."\<close>

fun join :: "byte \<Rightarrow> bytes list \<Rightarrow> bytes" where
  "join d [] = []"
| "join d [c] = c"
| "join d (c # c' # cs) = c @ d # join d (c' # cs)"

text \<open>
  The encodings the scenario of the specification is written with:
  \<^verbatim>\<open>struct.pack('i', v)\<close> and \<^verbatim>\<open>struct.pack('h', v)\<close> for a value in range are the 4 and the
  2 low bytes of \<open>v\<close> in two's complement, in native order.
\<close>

fun le_bytes :: "nat \<Rightarrow> int \<Rightarrow> bytes" where
  "le_bytes 0 v = []"
| "le_bytes (Suc n) v = word_of_int v # le_bytes n (v div 256)"

definition pack :: "byteorder \<Rightarrow> nat \<Rightarrow> int \<Rightarrow> bytes" where
  "pack bo n v = (case bo of Little \<Rightarrow> le_bytes n v | Big \<Rightarrow> rev (le_bytes n v))"

definition scenario_frame :: "byteorder \<Rightarrow> bytes" where
  "scenario_frame bo =
     replicate 6 0 @ pack bo 4 1234 @ replicate 4 0 @ pack bo 2 1 @ pack bo 2 (- 1) @ pack bo 2 7"

section \<open>Facts about the library operations\<close>

lemma read_bytes_inside:
  "off + n \<le> length buf \<Longrightarrow> read_bytes buf off n = Inr (take n (drop off buf))"
proof (induction n arbitrary: off)
  case 0
  show ?case by simp
next
  case (Suc n)
  from Suc.prems have lt: "off < length buf" and rest: "Suc off + n \<le> length buf"
    by simp_all
  have "drop off buf = buf ! off # drop (Suc off) buf"
    using lt by (simp add: Cons_nth_drop_Suc)
  then show ?case
    using Suc.IH [OF rest] lt by (simp add: getitem_def)
qed

text \<open>
  Without the length checks of the library the reads would leave the buffer: the loop of
  \<^verbatim>\<open>iter_unpack\<close> on a buffer of one byte, entered directly, ends in \<open>IndexError\<close>.
\<close>

lemma unpack_loop_unguarded: "unpack_loop bo [1] 0 = Inl IndexError"
  by (subst unpack_loop.simps) (simp add: getitem_def numeral_2_eq_2)

lemma unpack_from_i_eq:
  "unpack_from_i bo buf off =
     (if length buf < off + 4 then Inl (StructError RequiresBuffer)
      else Inr (unpack_i bo (take 4 (drop off buf))))"
  by (simp add: unpack_from_i_def read_bytes_inside)

lemma slice_length: "length (slice_bytes buf lo hi) = min (length buf) hi - lo"
  by (simp add: slice_bytes_def)

lemma slice_nth:
  assumes "k < length (slice_bytes buf lo hi)"
  shows "slice_bytes buf lo hi ! k = buf ! (lo + k)"
proof -
  from assms have "lo + k < hi" "lo + k < length buf"
    by (simp_all add: slice_bytes_def)
  then show ?thesis by (simp add: slice_bytes_def)
qed

lemma sint_word_of_int_signed:
  fixes u :: int
  assumes "0 \<le> u" "u < 2 ^ LENGTH('a::len)"
  shows "sint (word_of_int u :: 'a word) = signed_value LENGTH('a) u"
proof -
  define h :: int where "h = 2 ^ (LENGTH('a) - 1)"
  have full: "(2::int) ^ LENGTH('a) = 2 * h"
    unfolding h_def by (cases "LENGTH('a)") simp_all
  have hpos: "0 < h" unfolding h_def by simp
  have s: "sint (word_of_int u :: 'a word) = (u + h) mod (2 * h) - h"
    unfolding int_word_sint full h_def ..
  show ?thesis
  proof (cases "u < h")
    case True
    with assms hpos have "(u + h) mod (2 * h) = u + h" by simp
    with True s show ?thesis by (simp add: signed_value_def h_def)
  next
    case False
    with assms full have "(u + h) mod (2 * h) = u + h - 2 * h"
      by (simp add: mod_pos_geq)
    with False s full show ?thesis by (simp add: signed_value_def h_def)
  qed
qed

lemma uint_byte_bounds: "0 \<le> uint (b :: byte) \<and> uint b < 256"
  using uint_bounded [of b] by simp

lemma unpack_h_pair: "unpack_h bo [a, b] = int16_of_pair bo a b"
proof -
  have a: "0 \<le> uint a" "uint a < 256" and b: "0 \<le> uint b" "uint b < 256"
    using uint_byte_bounds by simp_all
  show ?thesis
  proof (cases bo)
    case Little
    have v: "unsigned_value bo [a, b] = uint a + 256 * uint b"
      using Little by (simp add: unsigned_value_def)
    have "0 \<le> uint a + 256 * uint b" "uint a + 256 * uint b < 2 ^ LENGTH(16)"
      using a b by simp_all
    then have "sint (word_of_int (uint a + 256 * uint b) :: 16 word)
        = signed_value LENGTH(16) (uint a + 256 * uint b)"
      by (rule sint_word_of_int_signed)
    then show ?thesis unfolding unpack_h_def v int16_of_pair_def using Little by simp
  next
    case Big
    have v: "unsigned_value bo [a, b] = 256 * uint a + uint b"
      using Big by (simp add: unsigned_value_def)
    have "0 \<le> 256 * uint a + uint b" "256 * uint a + uint b < 2 ^ LENGTH(16)"
      using a b by simp_all
    then have "sint (word_of_int (256 * uint a + uint b) :: 16 word)
        = signed_value LENGTH(16) (256 * uint a + uint b)"
      by (rule sint_word_of_int_signed)
    then show ?thesis unfolding unpack_h_def v int16_of_pair_def using Big by simp
  qed
qed

lemma unpack_i_quad: "unpack_i bo [a, b, c, d] = int32_of_quad bo a b c d"
proof -
  have a: "0 \<le> uint a" "uint a < 256" and b: "0 \<le> uint b" "uint b < 256"
    and c: "0 \<le> uint c" "uint c < 256" and d: "0 \<le> uint d" "uint d < 256"
    using uint_byte_bounds by simp_all
  show ?thesis
  proof (cases bo)
    case Little
    define u where "u = uint a + 256 * uint b + 65536 * uint c + 16777216 * uint d"
    have v: "unsigned_value bo [a, b, c, d] = u"
      using Little by (simp add: unsigned_value_def u_def)
    have "0 \<le> u" "u < 2 ^ LENGTH(32)" using a b c d by (simp_all add: u_def)
    then have "sint (word_of_int u :: 32 word) = signed_value LENGTH(32) u"
      by (rule sint_word_of_int_signed)
    then show ?thesis
      unfolding unpack_i_def v int32_of_quad_def using Little by (simp add: u_def)
  next
    case Big
    define u where "u = 16777216 * uint a + 65536 * uint b + 256 * uint c + uint d"
    have v: "unsigned_value bo [a, b, c, d] = u"
      using Big by (simp add: unsigned_value_def u_def)
    have "0 \<le> u" "u < 2 ^ LENGTH(32)" using a b c d by (simp_all add: u_def)
    then have "sint (word_of_int u :: 32 word) = signed_value LENGTH(32) u"
      by (rule sint_word_of_int_signed)
    then show ?thesis
      unfolding unpack_i_def v int32_of_quad_def using Big by (simp add: u_def)
  qed
qed

lemma unpack_loop_even:
  "idx \<le> length buf \<Longrightarrow> even (length buf - idx) \<Longrightarrow>
     unpack_loop bo buf idx = Inr (samples_of_pairs bo (drop idx buf))"
proof (induction bo buf idx rule: unpack_loop.induct)
  case (1 bo buf idx)
  show ?case
  proof (cases "length buf \<le> idx")
    case True
    then show ?thesis by (subst unpack_loop.simps) simp
  next
    case False
    have two: "idx + 2 \<le> length buf"
    proof -
      from False have "0 < length buf - idx" by simp
      with "1.prems"(2) have "2 \<le> length buf - idx"
        by (cases "length buf - idx = 1") auto
      then show ?thesis by simp
    qed
    have rd: "read_bytes buf idx 2 = Inr (take 2 (drop idx buf))"
      using two by (simp add: read_bytes_inside)
    have ev: "even (length buf - (idx + 2))" using "1.prems" two by simp
    have ih: "unpack_loop bo buf (idx + 2) = Inr (samples_of_pairs bo (drop (idx + 2) buf))"
      using "1.IH" [OF False rd] two ev by simp
    obtain a b where ab: "drop idx buf = a # b # drop (idx + 2) buf"
    proof -
      from two have "idx < length buf" "Suc idx < length buf" by simp_all
      then have "drop idx buf = buf ! idx # buf ! Suc idx # drop (Suc (Suc idx)) buf"
        by (simp add: Cons_nth_drop_Suc)
      then show ?thesis using that by simp
    qed
    have "take 2 (drop idx buf) = [a, b]" using ab by (simp add: numeral_2_eq_2)
    then show ?thesis
      using False rd ih ab by (subst unpack_loop.simps) (simp add: unpack_h_pair)
  qed
qed

lemma samples_of_pairs_length: "length (samples_of_pairs bo s) = length s div 2"
  by (induction bo s rule: samples_of_pairs.induct) simp_all

lemma samples_of_pairs_nth:
  "k < length s div 2 \<Longrightarrow>
     samples_of_pairs bo s ! k = int16_of_pair bo (s ! (2 * k)) (s ! (2 * k + 1))"
proof (induction bo s arbitrary: k rule: samples_of_pairs.induct)
  case (1 bo a b rest)
  then show ?case by (cases k) simp_all
qed simp_all

section \<open>Facts about the program's functions\<close>

lemma get_timestamp_eq:
  "get_timestamp bo f =
     (if length f < 10 then Inl (StructError RequiresBuffer)
      else Inr (unpack_i bo (take 4 (drop 6 f))))"
  by (simp add: get_timestamp_def unpack_from_i_eq)

lemma take4_drop6:
  assumes "10 \<le> length f"
  shows "take 4 (drop 6 f) = [f ! 6, f ! 7, f ! 8, f ! 9]"
proof (rule nth_equalityI)
  show "length (take 4 (drop 6 f)) = length [f ! 6, f ! 7, f ! 8, f ! 9]"
    using assms by simp
next
  fix i assume "i < length (take 4 (drop 6 f))"
  then have "i < 4" by simp
  then consider "i = 0" | "i = 1" | "i = 2" | "i = 3" by linarith
  then show "take 4 (drop 6 f) ! i = [f ! 6, f ! 7, f ! 8, f ! 9] ! i"
    using assms by cases simp_all
qed

lemma get_data_eq:
  "get_data bo s =
     (if odd (length s) then Inl (StructError NotMultiple)
      else Inr (samples_of_pairs bo s))"
proof (cases "even (length s)")
  case True
  then have "unpack_loop bo s 0 = Inr (samples_of_pairs bo (drop 0 s))"
    by (intro unpack_loop_even) simp_all
  with True show ?thesis
    by (simp add: get_data_def iter_unpack_h_def even_iff_mod_2_eq_zero)
next
  case False
  then show ?thesis
    by (simp add: get_data_def iter_unpack_h_def odd_iff_mod_2_eq_one)
qed

lemma get_data_array_length: "length (get_data_array f) = min (length f) 24 - 10"
  by (simp add: get_data_array_def slice_length)

lemma decode_eq:
  "decode bo f =
     (if length f < 10 then Inl (StructError RequiresBuffer)
      else if odd (length (get_data_array f)) then Inl (StructError NotMultiple)
      else Inr \<lparr>timestamp = unpack_i bo (take 4 (drop 6 f)),
                samples = samples_of_pairs bo (get_data_array f)\<rparr>)"
  by (simp add: decode_def get_timestamp_eq get_data_eq)

lemma odd_data_array_iff:
  "10 \<le> length f \<Longrightarrow> odd (length (get_data_array f)) \<longleftrightarrow> length f < 24 \<and> odd (length f)"
  by (cases "length f < 24") (simp_all add: get_data_array_length min_def)


section \<open>Sample decoding\<close>

text \<open>
  Claim C1, as the code has it. Sample decoding is \<open>get_data\<close> applied to
  \<open>get_data_array\<close>. The data array is the slice \<^verbatim>\<open>frame[10:24]\<close>, so it holds at most
  the first 14 bytes of the payload. When its length \<open>n\<close> is even, the samples are every
  consecutive 2-byte group of it read as a signed 16-bit integer, in stream order, and
  there are exactly \<open>n div 2\<close> of them. When its length is odd, \<^verbatim>\<open>struct.iter_unpack\<close>
  raises \<^verbatim>\<open>struct.error\<close>: no trailing byte is discarded.
\<close>

theorem sample_decoding_of_data_array:
  "length (get_data_array f) = min (length f - 10) 14 \<and>
   (even (length (get_data_array f)) \<longrightarrow>
      get_data bo (get_data_array f) = Inr (samples_of_pairs bo (get_data_array f)) \<and>
      length (samples_of_pairs bo (get_data_array f)) = length (get_data_array f) div 2) \<and>
   (odd (length (get_data_array f)) \<longrightarrow>
      get_data bo (get_data_array f) = Inl (StructError NotMultiple))"
proof (intro conjI impI)
  show "length (get_data_array f) = min (length f - 10) 14"
    by (simp add: get_data_array_length)
next
  assume "even (length (get_data_array f))"
  then show "get_data bo (get_data_array f) = Inr (samples_of_pairs bo (get_data_array f))"
    by (simp add: get_data_eq)
next
  show "length (samples_of_pairs bo (get_data_array f)) = length (get_data_array f) div 2"
    by (rule samples_of_pairs_length)
next
  assume "odd (length (get_data_array f))"
  then show "get_data bo (get_data_array f) = Inl (StructError NotMultiple)"
    by (simp add: get_data_eq)
qed

text \<open>
  The theorem at a frame of 16 bytes (payload of 6 bytes, three samples) and at a frame
  of 13 bytes (payload of 3 bytes, an error).
\<close>

theorem sample_decoding_of_data_array_witness:
  "even (length (get_data_array [0, 0, 0, 0, 0, 0, 0, 0, 0, 0, 1, 0, 255, 255, 7, 0])) \<and>
   get_data Little (get_data_array [0, 0, 0, 0, 0, 0, 0, 0, 0, 0, 1, 0, 255, 255, 7, 0])
     = Inr [1, - 1, 7] \<and>
   odd (length (get_data_array (replicate 13 0))) \<and>
   get_data Little (get_data_array (replicate 13 0)) = Inl (StructError NotMultiple)"
proof -
  let ?f = "[0, 0, 0, 0, 0, 0, 0, 0, 0, 0, 1, 0, 255, 255, 7, 0] :: bytes"
  have s: "get_data_array ?f = [1, 0, 255, 255, 7, 0]"
    by (simp add: get_data_array_def slice_bytes_def)
  have v: "samples_of_pairs Little [1, 0, 255, 255, 7, 0] = [1, - 1, 7]"
    by (simp add: int16_of_pair_def signed_value_def)
  have t: "get_data_array (replicate 13 0) = [0, 0, 0]"
    by (simp add: get_data_array_def slice_bytes_def eval_nat_numeral)
  from sample_decoding_of_data_array [of ?f Little]
       sample_decoding_of_data_array [of "replicate 13 0" Little]
  show ?thesis unfolding s v t by simp
qed

text \<open>
  Against the claim as the specification states it: a payload of 3 bytes (a frame of 13)
  is an error, not one sample with a byte discarded; and a payload of 20 bytes (a frame
  of 30) gives 7 samples, not 10.
\<close>

theorem sample_decoding_counterexample:
  "get_data Little (get_data_array (replicate 13 0)) = Inl (StructError NotMultiple) \<and>
   get_data Big (get_data_array (replicate 13 0)) = Inl (StructError NotMultiple) \<and>
   get_data Little (get_data_array (replicate 30 0)) = Inr [0, 0, 0, 0, 0, 0, 0]"
  by code_simp

section \<open>Errors of decoding\<close>

text \<open>
  Claim C2, as the code has it. Full decoding fails with the \<^verbatim>\<open>struct.error\<close> of
  \<^verbatim>\<open>unpack_from\<close> (the buffer is too short) exactly when the frame has fewer than 10
  bytes. A frame of at least 10 bytes decodes exactly when \<^verbatim>\<open>frame[10:24]\<close> has even
  length, that is when the frame has at least 24 bytes or an even length; otherwise, for
  an odd length from 11 to 23, decoding fails with the \<^verbatim>\<open>struct.error\<close> of
  \<^verbatim>\<open>iter_unpack\<close>. There is no other outcome.
\<close>

theorem decode_outcomes:
  "(decode bo f = Inl (StructError RequiresBuffer) \<longleftrightarrow> length f < 10) \<and>
   (decode bo f = Inl (StructError NotMultiple) \<longleftrightarrow>
      10 \<le> length f \<and> length f < 24 \<and> odd (length f)) \<and>
   (decode bo f = Inr \<lparr>timestamp = unpack_i bo (take 4 (drop 6 f)),
                        samples = samples_of_pairs bo (get_data_array f)\<rparr> \<longleftrightarrow>
      24 \<le> length f \<or> (10 \<le> length f \<and> even (length f))) \<and>
   (decode bo f = Inl (StructError RequiresBuffer) \<or>
    decode bo f = Inl (StructError NotMultiple) \<or>
    decode bo f = Inr \<lparr>timestamp = unpack_i bo (take 4 (drop 6 f)),
                        samples = samples_of_pairs bo (get_data_array f)\<rparr>)"
proof (cases "length f < 10")
  case True
  then show ?thesis by (simp add: decode_eq)
next
  case False
  then have ge: "10 \<le> length f" by simp
  show ?thesis
  proof (cases "odd (length (get_data_array f))")
    case True
    with ge have "length f < 24 \<and> odd (length f)" by (simp add: odd_data_array_iff)
    with ge True show ?thesis by (simp add: decode_eq)
  next
    case False
    with ge have "\<not> (length f < 24 \<and> odd (length f))" by (simp add: odd_data_array_iff)
    with ge False show ?thesis by (auto simp add: decode_eq)
  qed
qed

theorem decode_outcomes_witness:
  "decode Little (replicate 9 0) = Inl (StructError RequiresBuffer) \<and>
   decode Little (replicate 11 0) = Inl (StructError NotMultiple) \<and>
   decode Little (replicate 12 0) = Inr \<lparr>timestamp = 0, samples = [0]\<rparr>"
proof -
  have a: "unpack_i Little (take 4 (drop 6 (replicate 12 0))) = 0"
    by (simp add: unpack_i_def unsigned_value_def eval_nat_numeral)
  have b: "samples_of_pairs Little (get_data_array (replicate 12 0)) = [0]"
    by (simp add: get_data_array_def slice_bytes_def eval_nat_numeral int16_of_pair_def
        signed_value_def)
  from decode_outcomes [of Little "replicate 9 0"]
       decode_outcomes [of Little "replicate 11 0"]
       decode_outcomes [of Little "replicate 12 0"]
  show ?thesis unfolding a b by simp
qed

text \<open>
  Against the claim as stated: a frame of 11 bytes is not shorter than 10, and decoding
  it fails, with an error that is not the one for a short frame.
\<close>

theorem decode_outcomes_counterexample:
  "\<not> length (replicate 11 0 :: bytes) < 10 \<and>
   decode Little (replicate 11 0) = Inl (StructError NotMultiple) \<and>
   decode Big (replicate 11 0) = Inl (StructError NotMultiple)"
  by code_simp

section \<open>Reads stay inside the frame\<close>

text \<open>
  Claim C3. Whatever the frame, the empty one included, decoding ends with a frame or
  with a \<^verbatim>\<open>struct.error\<close>: no read of a byte falls outside a buffer (that would be
  \<open>IndexError\<close>), neither in the timestamp nor in the samples. The data array is a
  prefix of the payload, so nothing is taken from beyond the end of the frame.
\<close>

theorem decode_reads_in_bounds:
  "decode bo f \<noteq> Inl IndexError \<and>
   get_timestamp bo f \<noteq> Inl IndexError \<and>
   get_data bo (get_data_array f) \<noteq> Inl IndexError \<and>
   get_data_array f = take (length (get_data_array f)) (drop 10 f) \<and>
   10 + length (get_data_array f) \<le> max 10 (length f)"
proof (intro conjI)
  show "decode bo f \<noteq> Inl IndexError" by (simp add: decode_eq)
  show "get_timestamp bo f \<noteq> Inl IndexError" by (simp add: get_timestamp_eq)
  show "get_data bo (get_data_array f) \<noteq> Inl IndexError" by (simp add: get_data_eq)
  have "get_data_array f = take 14 (drop 10 f)"
    by (simp add: get_data_array_def slice_bytes_def drop_take)
  then show "get_data_array f = take (length (get_data_array f)) (drop 10 f)"
    by (simp add: min_def)
  show "10 + length (get_data_array f) \<le> max 10 (length f)"
    by (simp add: get_data_array_length)
qed

section \<open>The scenario of the specification\<close>

text \<open>
  Claim C4, as the code has it. The frame of 20 bytes (6 zero bytes, 1234 as a 32-bit
  integer, 4 zero bytes, then 1, -1 and 7 as 16-bit integers, all in native order)
  decodes to the timestamp 1234 and to five samples, 0, 0, 1, -1, 7: the payload starts
  at offset 10, so the 4 zero bytes at offsets 10 to 13 are its first two samples.
\<close>

theorem decode_scenario_frame:
  "decode bo (scenario_frame bo) = Inr \<lparr>timestamp = 1234, samples = [0, 0, 1, - 1, 7]\<rparr>"
proof (cases bo)
  case Little
  have "decode Little (scenario_frame Little)
      = Inr \<lparr>timestamp = 1234, samples = [0, 0, 1, - 1, 7]\<rparr>"
    by code_simp
  with Little show ?thesis by simp
next
  case Big
  have "decode Big (scenario_frame Big)
      = Inr \<lparr>timestamp = 1234, samples = [0, 0, 1, - 1, 7]\<rparr>"
    by code_simp
  with Big show ?thesis by simp
qed

text \<open>Against the claim as stated: the samples are not 1, -1, 7.\<close>

theorem decode_scenario_frame_counterexample:
  "length (scenario_frame Little) = 20 \<and>
   decode Little (scenario_frame Little) \<noteq> Inr \<lparr>timestamp = 1234, samples = [1, - 1, 7]\<rparr> \<and>
   decode Big (scenario_frame Big) \<noteq> Inr \<lparr>timestamp = 1234, samples = [1, - 1, 7]\<rparr>"
  by code_simp


section \<open>Splitting and joining\<close>

lemma split_from_not_Nil: "split_from d cur xs \<noteq> []"
  by (induction xs arbitrary: cur) simp_all

lemma join_Cons: "ps \<noteq> [] \<Longrightarrow> join d (c # ps) = c @ d # join d ps"
  by (cases ps) simp_all

lemma join_split_from: "join d (split_from d cur xs) = cur @ xs"
proof (induction xs arbitrary: cur)
  case Nil
  show ?case by simp
next
  case (Cons x xs)
  show ?case
  proof (cases "x = d")
    case True
    have "join d (cur # split_from d [] xs) = cur @ d # join d (split_from d [] xs)"
      by (rule join_Cons) (rule split_from_not_Nil)
    also have "\<dots> = cur @ d # xs" by (simp add: Cons.IH)
    finally show ?thesis using True by simp
  next
    case False
    then show ?thesis by (simp add: Cons.IH)
  qed
qed

lemma split_from_pieces:
  "d \<notin> set cur \<Longrightarrow> c \<in> set (split_from d cur xs) \<Longrightarrow> d \<notin> set c"
proof (induction xs arbitrary: cur)
  case Nil
  then show ?case by simp
next
  case (Cons x xs)
  show ?case
  proof (cases "x = d")
    case True
    with Cons.prems have "c = cur \<or> c \<in> set (split_from d [] xs)" by simp
    then show ?thesis
    proof
      assume "c = cur"
      with Cons.prems show ?thesis by simp
    next
      assume "c \<in> set (split_from d [] xs)"
      moreover have "d \<notin> set []" by simp
      ultimately show ?thesis by (rule Cons.IH [rotated])
    qed
  next
    case False
    with Cons.prems have "c \<in> set (split_from d (cur @ [x]) xs)" by simp
    moreover from False Cons.prems have "d \<notin> set (cur @ [x])" by simp
    ultimately show ?thesis by (rule Cons.IH [rotated])
  qed
qed

lemma split_from_no_delimiter: "d \<notin> set xs \<Longrightarrow> split_from d cur xs = [cur @ xs]"
  by (induction xs arbitrary: cur) auto

text \<open>
  Claim C5. For every buffer \<open>b\<close> and delimiter byte \<open>d\<close>, joining the candidates of
  \<open>bytes_split b d\<close> with one \<open>d\<close> between each two consecutive candidates gives \<open>b\<close>
  back, and no candidate contains \<open>d\<close>.
\<close>

theorem split_join_roundtrip:
  "join d (bytes_split b d) = b \<and> (\<forall>c \<in> set (bytes_split b d). d \<notin> set c)"
proof
  show "join d (bytes_split b d) = b"
    by (simp add: bytes_split_def join_split_from)
next
  show "\<forall>c \<in> set (bytes_split b d). d \<notin> set c"
  proof
    fix c assume "c \<in> set (bytes_split b d)"
    then have "c \<in> set (split_from d [] b)" by (simp add: bytes_split_def)
    moreover have "d \<notin> set []" by simp
    ultimately show "d \<notin> set c" by (rule split_from_pieces [rotated])
  qed
qed

theorem split_join_roundtrip_witness:
  "bytes_split [0x3A, 1, 2, 0x3A, 0x3A, 3, 0x3A] delimiter = [[], [1, 2], [], [3], []] \<and>
   join delimiter [[], [1, 2], [], [3], []] = [0x3A, 1, 2, 0x3A, 0x3A, 3, 0x3A] \<and>
   delimiter \<notin> set [1, 2 :: byte]"
proof -
  have s: "bytes_split [0x3A, 1, 2, 0x3A, 0x3A, 3, 0x3A] delimiter = [[], [1, 2], [], [3], []]"
    by (simp add: bytes_split_def delimiter_def)
  from split_join_roundtrip [of delimiter "[0x3A, 1, 2, 0x3A, 0x3A, 3, 0x3A]"]
  show ?thesis unfolding s by simp
qed

text \<open>
  Claim C6, as the code has it. Splitting the empty buffer yields one candidate, the
  empty frame, not the empty sequence; decoding the candidates of an empty capture so
  yields no frame and one error, the frame being too short. Splitting a buffer without
  any occurrence of the delimiter, empty or not, yields exactly one candidate, the whole
  buffer.
\<close>

theorem split_edge_cases:
  "bytes_split [] d = [[]] \<and>
   map (decode bo) (bytes_split [] d) = [Inl (StructError RequiresBuffer)] \<and>
   (d \<notin> set b \<longrightarrow> bytes_split b d = [b])"
proof (intro conjI impI)
  show empty: "bytes_split [] d = [[]]"
    by (simp add: bytes_split_def)
  have "decode bo [] = Inl (StructError RequiresBuffer)"
    by (simp add: decode_eq)
  with empty show "map (decode bo) (bytes_split [] d) = [Inl (StructError RequiresBuffer)]"
    by simp
next
  assume "d \<notin> set b"
  then have "split_from d [] b = [[] @ b]" by (rule split_from_no_delimiter)
  then show "bytes_split b d = [b]" by (simp add: bytes_split_def)
qed

theorem split_edge_cases_witness:
  "delimiter \<notin> set [1, 2, 3 :: byte] \<and> bytes_split [1, 2, 3] delimiter = [[1, 2, 3]] \<and>
   bytes_split [] delimiter = [[]]"
proof -
  have "delimiter \<notin> set [1, 2, 3 :: byte]" by (simp add: delimiter_def)
  with split_edge_cases [of delimiter Little "[1, 2, 3]"] show ?thesis by simp
qed

text \<open>Against the claim as stated: the candidates of the empty buffer are not none.\<close>

theorem split_empty_counterexample:
  "bytes_split [] delimiter \<noteq> [] \<and> length (bytes_split [] delimiter) = 1"
  by (simp add: bytes_split_def)

section \<open>The timestamp alone\<close>

text \<open>
  Claim C7, as the code has it. \<open>get_timestamp\<close> fails, with the \<^verbatim>\<open>struct.error\<close> for a
  buffer that is too short, exactly when the frame has fewer than 10 bytes; for every
  frame of at least 10 bytes it returns the signed 32-bit integer held by the 4 bytes at
  offsets 6 to 9. The other function at offset 6, \<open>get_timestamp_byte\<close>, never fails:
  it returns the slice \<^verbatim>\<open>frame[6:7]\<close>, one byte or none.
\<close>

theorem get_timestamp_outcome:
  "get_timestamp bo f =
     (if length f < 10 then Inl (StructError RequiresBuffer)
      else Inr (int32_of_quad bo (f ! 6) (f ! 7) (f ! 8) (f ! 9))) \<and>
   get_timestamp_byte f = (if 6 < length f then [f ! 6] else [])"
proof
  show "get_timestamp bo f =
     (if length f < 10 then Inl (StructError RequiresBuffer)
      else Inr (int32_of_quad bo (f ! 6) (f ! 7) (f ! 8) (f ! 9)))"
    by (simp add: get_timestamp_eq take4_drop6 unpack_i_quad)
next
  show "get_timestamp_byte f = (if 6 < length f then [f ! 6] else [])"
  proof (cases "6 < length f")
    case True
    then have "drop 6 (take 7 f) = [f ! 6]"
      by (intro nth_equalityI) simp_all
    with True show ?thesis by (simp add: get_timestamp_byte_def slice_bytes_def)
  next
    case False
    then show ?thesis by (simp add: get_timestamp_byte_def slice_bytes_def)
  qed
qed

theorem get_timestamp_outcome_witness:
  "get_timestamp Little [0, 0, 0, 0, 0, 0, 0xD2, 4, 0, 0] = Inr 1234 \<and>
   get_timestamp Big [0, 0, 0, 0, 0, 0, 0xFF, 0xFF, 0xFF, 0xFE] = Inr (- 2) \<and>
   get_timestamp Little [0, 0, 0, 0, 0, 0, 0xD2, 4, 0] = Inl (StructError RequiresBuffer) \<and>
   get_timestamp_byte [0, 0, 0, 0, 0, 0, 0xD2, 4, 0] = [0xD2]"
  using get_timestamp_outcome [of Little "[0, 0, 0, 0, 0, 0, 0xD2, 4, 0, 0]"]
        get_timestamp_outcome [of Big "[0, 0, 0, 0, 0, 0, 0xFF, 0xFF, 0xFF, 0xFE]"]
        get_timestamp_outcome [of Little "[0, 0, 0, 0, 0, 0, 0xD2, 4, 0]"]
  by (simp add: int32_of_quad_def signed_value_def)

text \<open>
  Against the claim as stated: frames of 6 and of 9 bytes are not shorter than 6, and
  the timestamp cannot be extracted from them.
\<close>

theorem get_timestamp_counterexample:
  "\<not> length (replicate 6 0 :: bytes) < 6 \<and>
   get_timestamp Little (replicate 6 0) = Inl (StructError RequiresBuffer) \<and>
   get_timestamp Big (replicate 9 0) = Inl (StructError RequiresBuffer)"
  by (simp add: get_timestamp_eq)

section \<open>Saving\<close>

text \<open>
  Claim C8, as the code has it. \<open>bytes_to_file\<close> first tries to remove the file at the
  path and ignores every error of that removal, whatever it is (the \<^verbatim>\<open>except\<close> clause
  names no exception); then it opens the path and writes the buffer, on the file system
  the removal left. The only errors it surfaces are those of opening and writing, and
  it surfaces them unchanged.
\<close>

theorem bytes_to_file_outcome:
  "(\<forall>e. remove path fs = Inl e \<longrightarrow>
      bytes_to_file remove open_write path data fs = open_write path data fs) \<and>
   (\<forall>fs'. remove path fs = Inr fs' \<longrightarrow>
      bytes_to_file remove open_write path data fs = open_write path data fs') \<and>
   (\<forall>e. bytes_to_file remove open_write path data fs = Inl e \<longrightarrow>
      (\<exists>fs1. open_write path data fs1 = Inl e))"
proof (cases "remove path fs")
  case (Inl e')
  then have "bytes_to_file remove open_write path data fs = open_write path data fs"
    by (simp add: bytes_to_file_def)
  with Inl show ?thesis by auto
next
  case (Inr fs')
  then have "bytes_to_file remove open_write path data fs = open_write path data fs'"
    by (simp add: bytes_to_file_def)
  with Inr show ?thesis by auto
qed

text \<open>
  On the small file system: a missing file in a writable directory (the removal fails,
  the file is written); an existing file in a writable directory (removed, then
  created); a missing file in a read-only directory (the error of opening surfaces).
\<close>

theorem bytes_to_file_outcome_witness:
  "unlink ''out'' \<lparr>entries = [], dir_writable = True\<rparr> = Inl FileNotFoundError \<and>
   bytes_to_file unlink write_file ''out'' [1, 2] \<lparr>entries = [], dir_writable = True\<rparr>
     = Inr \<lparr>entries = [(''out'', [1, 2])], dir_writable = True\<rparr> \<and>
   unlink ''out'' \<lparr>entries = [(''out'', [7])], dir_writable = True\<rparr>
     = Inr \<lparr>entries = [], dir_writable = True\<rparr> \<and>
   bytes_to_file unlink write_file ''out'' [1, 2]
       \<lparr>entries = [(''out'', [7])], dir_writable = True\<rparr>
     = Inr \<lparr>entries = [(''out'', [1, 2])], dir_writable = True\<rparr> \<and>
   bytes_to_file unlink write_file ''out'' [1, 2] \<lparr>entries = [], dir_writable = False\<rparr>
     = Inl PermissionError"
proof -
  let ?A = "\<lparr>entries = [], dir_writable = True\<rparr>"
  let ?B = "\<lparr>entries = [(''out'', [7 :: byte])], dir_writable = True\<rparr>"
  let ?C = "\<lparr>entries = [], dir_writable = False\<rparr>"
  have a: "unlink ''out'' ?A = Inl FileNotFoundError"
    and b: "unlink ''out'' ?B = Inr ?A"
    and c: "unlink ''out'' ?C = Inl FileNotFoundError"
    by (simp_all add: unlink_def)
  have wa: "write_file ''out'' [1, 2] ?A = Inr \<lparr>entries = [(''out'', [1, 2])], dir_writable = True\<rparr>"
    and wc: "write_file ''out'' [1, 2] ?C = Inl PermissionError"
    by (simp_all add: write_file_def)
  from bytes_to_file_outcome [of unlink "''out''" ?A write_file "[1, 2]"]
       bytes_to_file_outcome [of unlink "''out''" ?B write_file "[1, 2]"]
       bytes_to_file_outcome [of unlink "''out''" ?C write_file "[1, 2]"]
  show ?thesis by (simp add: a b c wa wc)
qed

text \<open>
  Against the claim as stated: in a read-only directory that holds the file, the removal
  fails with a permission error, which is not the missing-file error; it is not
  surfaced, and the call succeeds by overwriting the file.
\<close>

theorem bytes_to_file_counterexample:
  "unlink ''out'' \<lparr>entries = [(''out'', [7])], dir_writable = False\<rparr> = Inl PermissionError \<and>
   bytes_to_file unlink write_file ''out'' [1, 2]
       \<lparr>entries = [(''out'', [7])], dir_writable = False\<rparr>
     = Inr \<lparr>entries = [(''out'', [1, 2])], dir_writable = False\<rparr>"
  by (simp add: unlink_def write_file_def bytes_to_file_def)

section \<open>Decoding twice\<close>

lemma raised_simps [simp]:
  "raised (Inl e) = Inl (Err e)" "raised (Inr v) = Inr v"
  by (simp_all add: raised_def)

lemma get_timestamp_st_bytes:
  "lookup s r = Some (Bytes f) \<Longrightarrow>
     get_timestamp_st bo r s = (raised (get_timestamp bo f), s)"
  by (simp add: get_timestamp_st_def get_timestamp_def)

lemma get_data_array_st_bytes:
  "lookup s r = Some (Bytes f) \<Longrightarrow>
     get_data_array_st r s = (Inr (length s), s @ [Bytes (get_data_array f)])"
  by (simp add: get_data_array_st_def get_data_array_def alloc_def)

text \<open>
  Draining an iterator gives what the loop of the library gives on its buffer from its
  index; in the store only the iterator itself has changed.
\<close>

lemma drain_st_unpack_loop:
  assumes "it < length s" "s ! it = UnpackIter a idx" "a < length s" "s ! a = Bytes b"
  shows "\<exists>idx'. drain_st bo it s = (raised (unpack_loop bo b idx), s[it := UnpackIter a idx'])"
  using assms
proof (induction bo b idx arbitrary: s rule: unpack_loop.induct)
  case (1 bo b idx)
  have ne: "a \<noteq> it" using "1.prems" by auto
  show ?case
  proof (cases "length b \<le> idx")
    case True
    then have "next_st bo it s = (Inr None, s)"
      using "1.prems" by (simp add: next_st_def lookup_def)
    then have "drain_st bo it s = (Inr [], s)"
      by (subst drain_st.simps) simp
    moreover have "unpack_loop bo b idx = Inr []"
      using True by (subst unpack_loop.simps) simp
    moreover have "s = s[it := UnpackIter a idx]"
      using "1.prems"(2) list_update_id [of s it] by simp
    ultimately show ?thesis by (metis raised_simps(2))
  next
    case False
    show ?thesis
    proof (cases "read_bytes b idx 2")
      case (Inl e)
      then have "next_st bo it s = (Inl (Err e), s)"
        using False "1.prems" by (simp add: next_st_def lookup_def)
      then have "drain_st bo it s = (Inl (Err e), s)"
        by (subst drain_st.simps) simp
      moreover have "unpack_loop bo b idx = Inl e"
        using False Inl by (subst unpack_loop.simps) simp
      moreover have "s = s[it := UnpackIter a idx]"
        using "1.prems"(2) list_update_id [of s it] by simp
      ultimately show ?thesis by (metis raised_simps(1))
    next
      case (Inr bs)
      let ?s' = "s[it := UnpackIter a (idx + 2)]"
      have nx: "next_st bo it s = (Inr (Some (unpack_h bo bs)), ?s')"
        using False Inr "1.prems" by (simp add: next_st_def lookup_def)
      have "\<exists>idx'. drain_st bo it ?s'
          = (raised (unpack_loop bo b (idx + 2)), ?s'[it := UnpackIter a idx'])"
        using "1.prems" ne by (intro "1.IH" [OF False Inr]) simp_all
      then obtain idx' where rec: "drain_st bo it ?s'
          = (raised (unpack_loop bo b (idx + 2)), s[it := UnpackIter a idx'])"
        by auto
      have ul: "unpack_loop bo b idx =
          (case unpack_loop bo b (idx + 2) of
             Inl e \<Rightarrow> Inl e | Inr vs \<Rightarrow> Inr (unpack_h bo bs # vs))"
        using False Inr by (subst unpack_loop.simps) simp
      have step: "drain_st bo it s =
          (case drain_st bo it ?s' of
             (Inl e, s'') \<Rightarrow> (Inl e, s'')
           | (Inr vs, s'') \<Rightarrow> (Inr (unpack_h bo bs # vs), s''))"
        by (subst drain_st.simps) (simp only: nx prod.case sum.case option.case)
      show ?thesis
      proof (cases "unpack_loop bo b (idx + 2)")
        case (Inl e)
        with rec have "drain_st bo it ?s' = (Inl (Err e), s[it := UnpackIter a idx'])"
          by simp
        with step have "drain_st bo it s = (Inl (Err e), s[it := UnpackIter a idx'])"
          by simp
        moreover from ul Inl have "unpack_loop bo b idx = Inl e" by simp
        ultimately show ?thesis by (metis raised_simps(1))
      next
        case (Inr vs)
        with rec have "drain_st bo it ?s' = (Inr vs, s[it := UnpackIter a idx'])"
          by simp
        with step have "drain_st bo it s
            = (Inr (unpack_h bo bs # vs), s[it := UnpackIter a idx'])"
          by simp
        moreover from ul Inr have "unpack_loop bo b idx = Inr (unpack_h bo bs # vs)" by simp
        ultimately show ?thesis by (metis raised_simps(2))
      qed
    qed
  qed
qed

lemma get_data_st_bytes:
  assumes "lookup s a = Some (Bytes b)"
  shows "\<exists>obj. get_data_st bo a s = (raised (get_data bo b), s @ obj) \<and> length obj \<le> 1"
proof (cases "length b mod 2 \<noteq> 0")
  case True
  with assms have "get_data_st bo a s = (raised (get_data bo b), s @ [])"
    by (simp add: get_data_st_def iter_unpack_st_def get_data_def iter_unpack_h_def)
  then show ?thesis by (intro exI [of _ "[]"]) simp
next
  case False
  let ?s' = "s @ [UnpackIter a 0]"
  from assms have a: "a < length s" "s ! a = Bytes b"
    by (simp_all add: lookup_def split: if_splits)
  have it: "iter_unpack_st a s = (Inr (length s), ?s')"
    using assms False by (simp add: iter_unpack_st_def alloc_def)
  have "\<exists>idx'. drain_st bo (length s) ?s'
      = (raised (unpack_loop bo b 0), ?s'[length s := UnpackIter a idx'])"
    using a by (intro drain_st_unpack_loop) (simp_all add: nth_append)
  then obtain idx' where "drain_st bo (length s) ?s'
      = (raised (unpack_loop bo b 0), s @ [UnpackIter a idx'])"
    by auto
  with it False have "get_data_st bo a s = (raised (get_data bo b), s @ [UnpackIter a idx'])"
    by (simp add: get_data_st_def get_data_def iter_unpack_h_def)
  then show ?thesis by (intro exI [of _ "[UnpackIter a idx']"]) simp
qed

text \<open>
  Decoding through the store gives the outcome of \<open>decode\<close> on the bytes of the frame,
  and only adds objects to the store.
\<close>

lemma decode_st_bytes:
  assumes "lookup s r = Some (Bytes f)"
  shows "\<exists>new. decode_st bo r s = (raised (decode bo f), s @ new)"
proof (cases "get_timestamp bo f")
  case (Inl e)
  with assms have "decode_st bo r s = (raised (decode bo f), s @ [])"
    by (simp add: decode_st_def get_timestamp_st_bytes decode_def)
  then show ?thesis by blast
next
  case (Inr ts)
  let ?s2 = "s @ [Bytes (get_data_array f)]"
  have "lookup ?s2 (length s) = Some (Bytes (get_data_array f))"
    by (simp add: lookup_def)
  then obtain obj where
    gd: "get_data_st bo (length s) ?s2 = (raised (get_data bo (get_data_array f)), ?s2 @ obj)"
    using get_data_st_bytes by blast
  have "decode_st bo r s = (raised (decode bo f), s @ (Bytes (get_data_array f) # obj))"
    using assms Inr gd
    by (simp add: decode_st_def get_timestamp_st_bytes get_data_array_st_bytes decode_def
        split: sum.splits)
  then show ?thesis by blast
qed

lemma lookup_append: "lookup s r = Some obj \<Longrightarrow> lookup (s @ new) r = Some obj"
  by (auto simp add: lookup_def nth_append split: if_splits)

text \<open>
  Claim C9. Decoding the same frame twice, the second time in the store that the first
  decoding left, yields the same outcome both times: two frames with the same timestamp
  and the same samples, or twice the same error. That outcome is the one \<open>decode\<close>
  computes from the bytes of the frame, for the byte order of the host. Each decoding
  adds a slice and an iterator to the store and leaves the frame as it was.
\<close>

theorem decode_st_twice:
  "lookup s r = Some (Bytes f) \<Longrightarrow>
   decode_st bo r s = (res1, s1) \<Longrightarrow> decode_st bo r s1 = (res2, s2) \<Longrightarrow>
     res1 = res2 \<and> res1 = raised (decode bo f) \<and>
     lookup s1 r = Some (Bytes f) \<and> lookup s2 r = Some (Bytes f)"
proof -
  assume f: "lookup s r = Some (Bytes f)"
    and d1: "decode_st bo r s = (res1, s1)" and d2: "decode_st bo r s1 = (res2, s2)"
  from decode_st_bytes [OF f, of bo] d1 obtain new1
    where r1: "res1 = raised (decode bo f)" and s1: "s1 = s @ new1"
    by auto
  from f s1 have f1: "lookup s1 r = Some (Bytes f)" by (simp add: lookup_append)
  from decode_st_bytes [OF f1, of bo] d2 obtain new2
    where r2: "res2 = raised (decode bo f)" and s2: "s2 = s1 @ new2"
    by auto
  from f1 s2 have "lookup s2 r = Some (Bytes f)" by (simp add: lookup_append)
  with r1 r2 f1 show ?thesis by simp
qed

text \<open>
  On the scenario frame: the first decoding leaves three objects in the store, the
  second five, and both yield the same frame.
\<close>

theorem decode_st_twice_witness:
  "decode_st Little 0 [Bytes (scenario_frame Little)]
     = (Inr \<lparr>timestamp = 1234, samples = [0, 0, 1, - 1, 7]\<rparr>,
        [Bytes (scenario_frame Little), Bytes [0, 0, 0, 0, 1, 0, 255, 255, 7, 0],
         UnpackIter 1 10]) \<and>
   decode_st Little 0
       [Bytes (scenario_frame Little), Bytes [0, 0, 0, 0, 1, 0, 255, 255, 7, 0],
        UnpackIter 1 10]
     = (Inr \<lparr>timestamp = 1234, samples = [0, 0, 1, - 1, 7]\<rparr>,
        [Bytes (scenario_frame Little), Bytes [0, 0, 0, 0, 1, 0, 255, 255, 7, 0],
         UnpackIter 1 10, Bytes [0, 0, 0, 0, 1, 0, 255, 255, 7, 0], UnpackIter 3 10])"
proof -
  let ?s = "[Bytes (scenario_frame Little)]"
  let ?s1 = "[Bytes (scenario_frame Little), Bytes [0, 0, 0, 0, 1, 0, 255, 255, 7, 0],
    UnpackIter 1 10]"
  let ?s2 = "[Bytes (scenario_frame Little), Bytes [0, 0, 0, 0, 1, 0, 255, 255, 7, 0],
    UnpackIter 1 10, Bytes [0, 0, 0, 0, 1, 0, 255, 255, 7, 0], UnpackIter 3 10]"
  let ?res = "Inr \<lparr>timestamp = 1234, samples = [0, 0, 1, - 1, 7]\<rparr> :: exn + frame"
  have l: "lookup ?s 0 = Some (Bytes (scenario_frame Little))"
    by (simp add: lookup_def)
  have d1: "decode_st Little 0 ?s = (?res, ?s1)"
    by code_simp
  have d2: "decode_st Little 0 ?s1 = (?res, ?s2)"
    by code_simp
  from decode_st_twice [OF l d1 d2] d1 d2 show ?thesis by simp
qed

section \<open>The samples depend on bytes 10 to 23 only\<close>

lemma get_data_array_le:
  assumes "\<forall>i \<in> {10..<24}. getitem f i = getitem g i"
  shows "length (get_data_array f) \<le> length (get_data_array g)"
proof (rule ccontr)
  assume "\<not> ?thesis"
  then have lt: "min (length g) 24 - 10 < min (length f) 24 - 10"
    by (simp add: get_data_array_length)
  define i where "i = max 10 (length g)"
  from lt have i: "i \<in> {10..<24}" and "i < length f" "\<not> i < length g"
    by (auto simp add: i_def)
  moreover from assms i have "getitem f i = getitem g i" by (rule bspec)
  ultimately show False by (simp add: getitem_def)
qed

lemma get_data_array_cong:
  assumes "\<forall>i \<in> {10..<24}. getitem f i = getitem g i"
  shows "get_data_array f = get_data_array g"
proof (rule nth_equalityI)
  from assms have "\<forall>i \<in> {10..<24}. getitem g i = getitem f i" by simp
  then have "length (get_data_array g) \<le> length (get_data_array f)"
    by (rule get_data_array_le)
  with get_data_array_le [OF assms]
  show len: "length (get_data_array f) = length (get_data_array g)" by simp
  fix k assume k: "k < length (get_data_array f)"
  with len have k': "k < length (get_data_array g)" by simp
  from k have i: "10 + k \<in> {10..<24}" and "10 + k < length f"
    by (simp_all add: get_data_array_length)
  moreover from k' have "10 + k < length g" by (simp add: get_data_array_length)
  moreover from assms i have "getitem f (10 + k) = getitem g (10 + k)" by (rule bspec)
  ultimately have "f ! (10 + k) = g ! (10 + k)"
    by (simp add: getitem_def)
  then show "get_data_array f ! k = get_data_array g ! k"
    using k k' by (simp add: get_data_array_def slice_nth)
qed

lemma get_data_array_bytes: "get_data_array f = map ((!) f) [10..<min (length f) 24]"
proof (rule nth_equalityI)
  show "length (get_data_array f) = length (map ((!) f) [10..<min (length f) 24])"
    by (simp add: get_data_array_length)
next
  fix k assume k: "k < length (get_data_array f)"
  then have "10 + k < min (length f) 24"
    unfolding get_data_array_length by linarith
  then have "map ((!) f) [10..<min (length f) 24] ! k = f ! (10 + k)"
    by (simp add: min_def)
  moreover have "get_data_array f ! k = f ! (10 + k)"
    using k by (simp add: get_data_array_def slice_nth)
  ultimately show "get_data_array f ! k = map ((!) f) [10..<min (length f) 24] ! k"
    by simp
qed

text \<open>
  Claim C10. Sample extraction takes from the frame the bytes at offsets 10 to 23 that
  exist, and nothing else; so it yields at most 7 samples, and two frames that agree at
  every offset from 10 to 23 (the same byte, or none in both) yield the same outcome,
  whatever they hold from offset 24 onward.
\<close>

theorem samples_from_bytes_10_to_23:
  "get_data_array f = map ((!) f) [10..<min (length f) 24] \<and>
   (\<forall>xs. get_data bo (get_data_array f) = Inr xs \<longrightarrow> length xs \<le> 7) \<and>
   ((\<forall>i \<in> {10..<24}. getitem f i = getitem g i) \<longrightarrow>
      get_data bo (get_data_array f) = get_data bo (get_data_array g))"
proof (intro conjI allI impI)
  show "get_data_array f = map ((!) f) [10..<min (length f) 24]"
    by (rule get_data_array_bytes)
next
  fix xs assume "get_data bo (get_data_array f) = Inr xs"
  then have "xs = samples_of_pairs bo (get_data_array f)"
    by (simp add: get_data_eq split: if_splits)
  then have "length xs = (min (length f) 24 - 10) div 2"
    by (simp add: samples_of_pairs_length get_data_array_length)
  then show "length xs \<le> 7" by simp
next
  assume "\<forall>i \<in> {10..<24}. getitem f i = getitem g i"
  then have "get_data_array f = get_data_array g" by (rule get_data_array_cong)
  then show "get_data bo (get_data_array f) = get_data bo (get_data_array g)" by simp
qed

theorem samples_from_bytes_10_to_23_witness:
  "get_data Little (get_data_array (replicate 24 1 @ [9, 9, 9, 9]))
     = Inr [257, 257, 257, 257, 257, 257, 257] \<and>
   get_data Little (get_data_array (replicate 24 1 @ [5]))
     = Inr [257, 257, 257, 257, 257, 257, 257]"
proof -
  let ?f = "replicate 24 1 @ [9, 9, 9, 9] :: bytes"
  let ?g = "replicate 24 1 @ [5] :: bytes"
  have agree: "\<forall>i \<in> {10..<24}. getitem ?f i = getitem ?g i"
  proof
    fix i :: nat assume "i \<in> {10..<24}"
    then have "i < 24" by simp
    then show "getitem ?f i = getitem ?g i" by (simp add: getitem_def nth_append)
  qed
  have v: "get_data Little (get_data_array ?f) = Inr [257, 257, 257, 257, 257, 257, 257]"
    by code_simp
  from samples_from_bytes_10_to_23 [of ?f Little ?g]
  have "(\<forall>i \<in> {10..<24}. getitem ?f i = getitem ?g i) \<longrightarrow>
      get_data Little (get_data_array ?f) = get_data Little (get_data_array ?g)"
    by (elim conjE)
  with agree have "get_data Little (get_data_array ?f) = get_data Little (get_data_array ?g)"
    by (rule rev_mp)
  with v show ?thesis by (simp only: simp_thms)
qed


end
